theory Spec2Isabelle
  imports Main "HOL-Library.Word"
begin

unbundle bit_operations_syntax

section \<open>The 64-bit Trivium generator of \<open>cref/trivium64.c\<close>\<close>

text \<open>
  The C file keeps the generator in six global \<open>uint64_t\<close> words and offers
  \<open>trivium64_next\<close>, \<open>trivium64_setseed\<close>, the two byte/word helpers and the
  driver \<open>trivium_api\<close>. The embedding passes the globals around as a record; every
  function that touches them takes the record and returns the new one.
  \<open>uint64_t\<close> is \<open>64 word\<close> (shifts drop the bits that leave the word),
  \<open>uint8_t\<close> is \<open>8 word\<close>.
\<close>

type_synonym u8 = "8 word"
type_synonym u64 = "64 word"

subsection \<open>Global state\<close>

record state =
  s11 :: u64
  s12 :: u64
  s21 :: u64
  s22 :: u64
  s31 :: u64
  s32 :: u64

subsection \<open>\<open>trivium64_next\<close>\<close>

text \<open>The fifteen locals of lines 33 to 47, in the order of the source.\<close>

record taps =
  s66 :: u64
  s93 :: u64
  s162 :: u64
  s177 :: u64
  s243 :: u64
  s288 :: u64
  s91 :: u64
  s92 :: u64
  s171 :: u64
  s175 :: u64
  s176 :: u64
  s264 :: u64
  s286 :: u64
  s287 :: u64
  s69 :: u64

definition trivium64_taps :: "state \<Rightarrow> taps" where
  "trivium64_taps g =
     \<lparr> s66 = push_bit 62 (s12 g) XOR drop_bit 2 (s11 g),
       s93 = push_bit 35 (s12 g) XOR drop_bit 29 (s11 g),
       s162 = push_bit 59 (s22 g) XOR drop_bit 5 (s21 g),
       s177 = push_bit 44 (s22 g) XOR drop_bit 20 (s21 g),
       s243 = push_bit 62 (s32 g) XOR drop_bit 2 (s31 g),
       s288 = push_bit 17 (s32 g) XOR drop_bit 47 (s31 g),
       s91 = push_bit 37 (s12 g) XOR drop_bit 27 (s11 g),
       s92 = push_bit 36 (s12 g) XOR drop_bit 28 (s11 g),
       s171 = push_bit 50 (s22 g) XOR drop_bit 14 (s21 g),
       s175 = push_bit 46 (s22 g) XOR drop_bit 18 (s21 g),
       s176 = push_bit 45 (s22 g) XOR drop_bit 19 (s21 g),
       s264 = push_bit 41 (s32 g) XOR drop_bit 23 (s31 g),
       s286 = push_bit 19 (s32 g) XOR drop_bit 45 (s31 g),
       s287 = push_bit 18 (s32 g) XOR drop_bit 46 (s31 g),
       s69 = push_bit 59 (s12 g) XOR drop_bit 5 (s11 g) \<rparr>"

text \<open>
  Lines 48 to 61: the update and the rotation. The result is the returned word \<open>z\<close>
  together with the globals after the call.
\<close>

definition trivium64_next :: "state \<Rightarrow> u64 \<times> state" where
  "trivium64_next g =
     (let t = trivium64_taps g;
          t1 = s66 t XOR s93 t;
          t2 = s162 t XOR s177 t;
          t3 = s243 t XOR s288 t;
          z = t1 XOR t2 XOR t3;
          t1 = t1 XOR ((s91 t AND s92 t) XOR s171 t);
          t2 = t2 XOR ((s175 t AND s176 t) XOR s264 t);
          t3 = t3 XOR ((s286 t AND s287 t) XOR s69 t)
      in (z, g\<lparr> s12 := s11 g, s11 := t3,
                 s22 := s21 g, s21 := t1,
                 s32 := s31 g, s31 := t2 \<rparr>))"

subsection \<open>\<open>trivium64_setseed\<close>\<close>

text \<open>Lines 65 to 70: the six assignments to the globals.\<close>

definition trivium64_load :: "u64 \<Rightarrow> u64 \<Rightarrow> state \<Rightarrow> state" where
  "trivium64_load seed seq g =
     g\<lparr> s11 := seed, s12 := 0, s21 := seq, s22 := 0, s31 := 0, s32 := 0x700000000000 \<rparr>"

text \<open>Lines 72 to 74: \<open>for (int i = 0; i < 18; i++) trivium64_next();\<close>\<close>

function blank_rounds :: "nat \<Rightarrow> state \<Rightarrow> state" where
  "blank_rounds i g =
     (if i < 18 then blank_rounds (i + 1) (snd (trivium64_next g)) else g)"
  by pat_completeness auto
termination
  by (relation "measure (\<lambda>(i, g). 18 - i)") auto

declare blank_rounds.simps [simp del]

definition trivium64_setseed :: "u64 \<Rightarrow> u64 \<Rightarrow> state \<Rightarrow> state" where
  "trivium64_setseed seed seq g = blank_rounds 0 (trivium64_load seed seq g)"

subsection \<open>Byte buffers\<close>

text \<open>
  A buffer is the list of its bytes; a pointer into it is the buffer and an index.
  C leaves an access beyond the buffer undefined; the embedding returns
  \<open>OutOfBounds\<close> there. \<open>SignedOverflow\<close> is the other undefined step of the
  file: the driver counts its full-word loop with \<open>int i\<close>.
\<close>

datatype error = OutOfBounds | SignedOverflow

definition store :: "u8 list \<Rightarrow> nat \<Rightarrow> u8 \<Rightarrow> error + u8 list" where
  "store ks i v = (if i < length ks then Inr (ks[i := v]) else Inl OutOfBounds)"

text \<open>
  Two constants of the C implementation that the file does not fix. In
  \<open>bytes_to_uint64\<close> the parameter \<open>u\<close> is a pointer, so the source's
  \<open>sizeof(u)\<close> is the size of a pointer: 8 on the 64-bit targets the embedding
  describes. \<open>INT_MAX\<close> is that of a 32-bit \<open>int\<close>.
\<close>

definition sizeof_uint64_ptr :: nat where
  "sizeof_uint64_ptr = 8"

definition INT_MAX :: nat where
  "INT_MAX = 2147483647"

subsection \<open>\<open>bytes_to_uint64\<close>\<close>

text \<open>
  Lines 80 to 83, the loop over \<open>i\<close>; \<open>bit_shifts\<close> is a \<open>uint8_t\<close>, hence the
  \<open>mod 256\<close>.
\<close>

function bytes_to_uint64_loop :: "u8 list \<Rightarrow> nat \<Rightarrow> u64 \<Rightarrow> u64" where
  "bytes_to_uint64_loop bytes i u =
     (if i < sizeof_uint64_ptr - 1
      then (let bit_shifts = ((sizeof_uint64_ptr - 1 - i) * 8) mod 256
            in bytes_to_uint64_loop bytes (i + 1) (u OR push_bit bit_shifts (ucast (bytes ! i))))
      else u)"
  by pat_completeness auto
termination
  by (relation "measure (\<lambda>(bytes, i, u). sizeof_uint64_ptr - 1 - i)") auto

declare bytes_to_uint64_loop.simps [simp del]

text \<open>
  The function reads \<open>bytes[0]\<close> to \<open>bytes[sizeof(u) - 1]\<close>; a shorter buffer is
  read out of bounds.
\<close>

definition bytes_to_uint64 :: "u8 list \<Rightarrow> error + u64" where
  "bytes_to_uint64 bytes =
     (if length bytes < sizeof_uint64_ptr then Inl OutOfBounds
      else Inr (bytes_to_uint64_loop bytes 0 (ucast (bytes ! (sizeof_uint64_ptr - 1)))))"

subsection \<open>\<open>uint64_to_bytes\<close>\<close>

text \<open>
  Lines 87 to 90. Here \<open>u\<close> is the word itself and \<open>sizeof(u)\<close> is 8. The target
  \<open>bytes\<close> is the buffer \<open>ks\<close> from index \<open>base\<close> on (the driver passes
  \<open>&ks[i]\<close>).
\<close>

function uint64_to_bytes_loop :: "u8 list \<Rightarrow> nat \<Rightarrow> nat \<Rightarrow> u64 \<Rightarrow> error + u8 list" where
  "uint64_to_bytes_loop ks base i u =
     (if i < 8
      then (case store ks (base + (8 - 1 - i)) (ucast (u AND 0xff)) of
              Inl e \<Rightarrow> Inl e
            | Inr ks' \<Rightarrow> uint64_to_bytes_loop ks' base (i + 1) (drop_bit 8 u))
      else Inr ks)"
  by pat_completeness auto
termination
  by (relation "measure (\<lambda>(ks, base, i, u). 8 - i)") auto

declare uint64_to_bytes_loop.simps [simp del]

definition uint64_to_bytes :: "u64 \<Rightarrow> u8 list \<Rightarrow> nat \<Rightarrow> error + u8 list" where
  "uint64_to_bytes u ks base = uint64_to_bytes_loop ks base 0 u"

subsection \<open>\<open>trivium_api\<close>\<close>

text \<open>
  Lines 104 to 108, the full-word loop with bound \<open>lim = ks_size - remainder\<close>.
  The counter is an \<open>int\<close> that starts at 0 and grows by 8, so it is never
  negative and its comparison with the \<open>size_t\<close> bound is the comparison of the
  numbers; \<open>i += 8\<close> beyond \<open>INT_MAX\<close> is a signed overflow.
\<close>

function full_words_loop ::
    "nat \<Rightarrow> nat \<Rightarrow> state \<Rightarrow> u8 list \<Rightarrow> error + state \<times> u8 list" where
  "full_words_loop lim i g ks =
     (if i < lim
      then (let (ks64, g') = trivium64_next g
            in case uint64_to_bytes ks64 ks i of
                 Inl e \<Rightarrow> Inl e
               | Inr ks' \<Rightarrow>
                   if INT_MAX < i + 8 then Inl SignedOverflow
                   else full_words_loop lim (i + 8) g' ks')
      else Inr (g, ks))"
  by pat_completeness auto
termination
  by (relation "measure (\<lambda>(lim, i, g, ks). lim - i)") auto

declare full_words_loop.simps [simp del]

text \<open>Lines 113 to 115, the loop over the bytes of the tail.\<close>

function tail_loop :: "nat \<Rightarrow> nat \<Rightarrow> u64 \<Rightarrow> nat \<Rightarrow> u8 list \<Rightarrow> error + u8 list" where
  "tail_loop ks_size remainder ks64 i ks =
     (if i < remainder
      then (case store ks (ks_size - remainder + i) (ucast (drop_bit (7 - i) ks64 AND 0xff)) of
              Inl e \<Rightarrow> Inl e
            | Inr ks' \<Rightarrow> tail_loop ks_size remainder ks64 (i + 1) ks')
      else Inr ks)"
  by pat_completeness auto
termination
  by (relation "measure (\<lambda>(ks_size, remainder, ks64, i, ks). remainder - i)") auto

declare tail_loop.simps [simp del]

text \<open>
  The driver. It takes the globals as they are before the call, the key and the
  sequence number as byte buffers, the requested length and the output buffer, and
  returns the globals and the output buffer after the call.
\<close>

definition trivium_api ::
    "state \<Rightarrow> u8 list \<Rightarrow> u8 list \<Rightarrow> nat \<Rightarrow> u8 list \<Rightarrow> error + state \<times> u8 list" where
  "trivium_api g key iv ks_size ks =
     (case bytes_to_uint64 key of
        Inl e \<Rightarrow> Inl e
      | Inr key64 \<Rightarrow>
     (case bytes_to_uint64 iv of
        Inl e \<Rightarrow> Inl e
      | Inr iv64 \<Rightarrow>
     (let g0 = trivium64_setseed key64 iv64 g;
          remainder = ks_size mod 8
      in case full_words_loop (ks_size - remainder) 0 g0 ks of
           Inl e \<Rightarrow> Inl e
         | Inr (g1, ks1) \<Rightarrow>
             if remainder \<noteq> 0
             then (let (ks64, g2) = trivium64_next g1
                   in case tail_loop ks_size remainder ks64 0 ks1 of
                        Inl e \<Rightarrow> Inl e
                      | Inr ks2 \<Rightarrow> Inr (g2, ks2))
             else Inr (g1, ks1))))"

subsection \<open>The tap identity of the specification\<close>

text \<open>
  The specification extracts a tap at offset \<open>n\<close> of a register's 128-bit history
  from the register's word pair as
  \<open>tap(n) = (older << (128 - n)) XOR (newer >> (n - 64))\<close>. This definition follows
  that sentence; it is compared with the shifts of the source below.
\<close>

definition tap :: "u64 \<Rightarrow> u64 \<Rightarrow> nat \<Rightarrow> u64" where
  "tap newer older n = push_bit (128 - n) older XOR drop_bit (n - 64) newer"

text \<open>
  The canonical offsets count through the 288 bits of the three registers:
  register A is bits 1 to 93, register B bits 94 to 177, register C bits 178 to 288.
  The offset inside a register's own history is the canonical offset less the bits
  of the registers before it.
\<close>

definition tapA :: "state \<Rightarrow> nat \<Rightarrow> u64" where
  "tapA g n = tap (s11 g) (s12 g) n"

definition tapB :: "state \<Rightarrow> nat \<Rightarrow> u64" where
  "tapB g n = tap (s21 g) (s22 g) (n - 93)"

definition tapC :: "state \<Rightarrow> nat \<Rightarrow> u64" where
  "tapC g n = tap (s31 g) (s32 g) (n - 177)"

subsection \<open>Notions used to state the properties\<close>

text \<open>
  The globals after \<open>n\<close> further calls of \<open>trivium64_next\<close>, and the \<open>n\<close> words
  these calls return, in the order of the calls.
\<close>

primrec advance :: "nat \<Rightarrow> state \<Rightarrow> state" where
  "advance 0 g = g"
| "advance (Suc n) g = advance n (snd (trivium64_next g))"

primrec keystream :: "nat \<Rightarrow> state \<Rightarrow> u64 list" where
  "keystream 0 g = []"
| "keystream (Suc n) g = fst (trivium64_next g) # keystream n (snd (trivium64_next g))"

text \<open>The eight bytes of a word in big-endian order, most significant byte first.\<close>

definition be_bytes :: "u64 \<Rightarrow> u8 list" where
  "be_bytes u =
     [ucast (drop_bit 56 u), ucast (drop_bit 48 u), ucast (drop_bit 40 u),
      ucast (drop_bit 32 u), ucast (drop_bit 24 u), ucast (drop_bit 16 u),
      ucast (drop_bit 8 u), ucast u]"

text \<open>
  The bytes that the driver produces for a request of \<open>n\<close> bytes when the globals
  after seeding are \<open>g0\<close>: the big-endian bytes of the first \<open>n div 8\<close> words,
  followed by the \<open>n mod 8\<close> bytes that the tail loop takes from the next word
  with its shifts by \<open>7 - j\<close>.
\<close>

definition output_bytes :: "state \<Rightarrow> nat \<Rightarrow> u8 list" where
  "output_bytes g0 n =
     concat (map be_bytes (keystream (n div 8) g0)) @
     map (\<lambda>j. ucast (drop_bit (7 - j) (fst (trivium64_next (advance (n div 8) g0)))))
       [0..<n mod 8]"

text \<open>
  Concrete inputs for the closed instances below: the key and the sequence number of
  the commented-out \<open>main\<close> of the C file (\<open>0x1112131415161718\<close> and
  \<open>0xAAABACADADAFFFCC\<close>) as byte buffers, and globals that are all zero, as they are
  when the program starts.
\<close>

definition ref_key :: "u8 list" where
  "ref_key = [0x11, 0x12, 0x13, 0x14, 0x15, 0x16, 0x17, 0x18]"

definition ref_iv :: "u8 list" where
  "ref_iv = [0xAA, 0xAB, 0xAC, 0xAD, 0xAD, 0xAF, 0xFF, 0xCC]"

definition zero_state :: state where
  "zero_state = \<lparr> s11 = 0, s12 = 0, s21 = 0, s22 = 0, s31 = 0, s32 = 0 \<rparr>"

subsection \<open>The bit-serial reference\<close>

text \<open>
  The cipher that the C file batches, written from the description of the
  specification (its register lengths, tap offsets and update equations): three shift
  registers A, B and C of 93, 84 and 111 bits, whose bits are numbered 1 to 288
  through the three registers (bit 1 is the newest bit of A, bit 94 the newest of B,
  bit 178 the newest of C). A register is the list of its bits, newest first.
\<close>

record bitstate =
  regA :: "bool list"
  regB :: "bool list"
  regC :: "bool list"

text \<open>Bit \<open>n\<close> of the state, with the numbering 1 to 288.\<close>

definition sbit :: "bitstate \<Rightarrow> nat \<Rightarrow> bool" where
  "sbit \<sigma> n =
     (if n \<le> 93 then regA \<sigma> ! (n - 1)
      else if n \<le> 177 then regB \<sigma> ! (n - 94)
      else regC \<sigma> ! (n - 178))"

text \<open>
  One round: the output bit is the sum of the six taps 66, 93, 162, 177, 243, 288;
  every register shifts by one position and receives the branch of the register
  before it (A from C, B from A, C from B). The sum of bits is written \<open>\<noteq>\<close>.
\<close>

definition trivium_round :: "bitstate \<Rightarrow> bool \<times> bitstate" where
  "trivium_round \<sigma> =
     (let t1 = (sbit \<sigma> 66 \<noteq> sbit \<sigma> 93);
          t2 = (sbit \<sigma> 162 \<noteq> sbit \<sigma> 177);
          t3 = (sbit \<sigma> 243 \<noteq> sbit \<sigma> 288);
          z = ((t1 \<noteq> t2) \<noteq> t3);
          t1 = ((t1 \<noteq> (sbit \<sigma> 91 \<and> sbit \<sigma> 92)) \<noteq> sbit \<sigma> 171);
          t2 = ((t2 \<noteq> (sbit \<sigma> 175 \<and> sbit \<sigma> 176)) \<noteq> sbit \<sigma> 264);
          t3 = ((t3 \<noteq> (sbit \<sigma> 286 \<and> sbit \<sigma> 287)) \<noteq> sbit \<sigma> 69)
      in (z, \<lparr> regA = t3 # butlast (regA \<sigma>),
               regB = t1 # butlast (regB \<sigma>),
               regC = t2 # butlast (regC \<sigma>) \<rparr>))"

text \<open>The output bits of \<open>n\<close> rounds, in order, and the state after \<open>n\<close> rounds.\<close>

primrec trivium_bits :: "nat \<Rightarrow> bitstate \<Rightarrow> bool list" where
  "trivium_bits 0 \<sigma> = []"
| "trivium_bits (Suc n) \<sigma> = fst (trivium_round \<sigma>) # trivium_bits n (snd (trivium_round \<sigma>))"

primrec trivium_run :: "nat \<Rightarrow> bitstate \<Rightarrow> bitstate" where
  "trivium_run 0 \<sigma> = \<sigma>"
| "trivium_run (Suc n) \<sigma> = trivium_run n (snd (trivium_round \<sigma>))"

text \<open>
  Packing bits into words, most significant bit first: every further bit is shifted in
  from the right, so that the first of 64 bits ends as bit 63. \<open>pack_words\<close> cuts
  a bit list into chunks of 64.
\<close>

definition pack_word :: "bool list \<Rightarrow> u64" where
  "pack_word bs = foldl (\<lambda>w b. push_bit 1 w OR of_bool b) 0 bs"

fun pack_words :: "bool list \<Rightarrow> u64 list" where
  "pack_words bs = (if bs = [] then [] else pack_word (take 64 bs) # pack_words (drop 64 bs))"

declare pack_words.simps [simp del]

text \<open>
  The initial state of the cipher for a 64-bit key and a 64-bit sequence number: the
  key bits, least significant first, fill the first 64 positions of register A and the
  rest of A is zero; the same for the sequence number and register B; register C is
  zero but for its last three bits (the bits 286, 287 and 288 of the state), which
  are one.
\<close>

definition canonical_init :: "u64 \<Rightarrow> u64 \<Rightarrow> bitstate" where
  "canonical_init key seq =
     \<lparr> regA = map (bit key) [0..<64] @ replicate 29 False,
       regB = map (bit seq) [0..<64] @ replicate 20 False,
       regC = replicate 108 False @ [True, True, True] \<rparr>"

subsection \<open>The registers held in a word pair\<close>

text \<open>
  A word pair holds 128 bits of a register's history: bit \<open>m\<close> of the newer word is
  position \<open>m\<close> (counted from 0), bit \<open>m\<close> of the older word is position \<open>64 + m\<close>.
  \<open>bits_of\<close> reads the three registers off the six globals. \<open>mid g r\<close> is the state
  that the bit-serial cipher reaches \<open>r\<close> rounds after \<open>bits_of g\<close>, written with the
  words that \<open>trivium64_next g\<close> computes: the \<open>r\<close> newest bits of every register are
  the top \<open>r\<close> bits of its new word.
\<close>

definition hist :: "u64 \<Rightarrow> u64 \<Rightarrow> nat \<Rightarrow> bool" where
  "hist newer older m = (if m < 64 then bit newer m else bit older (m - 64))"

definition bits_of :: "state \<Rightarrow> bitstate" where
  "bits_of g =
     \<lparr> regA = map (hist (s11 g) (s12 g)) [0..<93],
       regB = map (hist (s21 g) (s22 g)) [0..<84],
       regC = map (hist (s31 g) (s32 g)) [0..<111] \<rparr>"

definition mid_reg :: "nat \<Rightarrow> u64 \<Rightarrow> u64 \<Rightarrow> u64 \<Rightarrow> nat \<Rightarrow> bool list" where
  "mid_reg len new newer older r =
     map (\<lambda>i. if i < r then bit new (64 - r + i) else hist newer older (i - r)) [0..<len]"

definition mid :: "state \<Rightarrow> nat \<Rightarrow> bitstate" where
  "mid g r =
     \<lparr> regA = mid_reg 93 (s11 (snd (trivium64_next g))) (s11 g) (s12 g) r,
       regB = mid_reg 84 (s21 (snd (trivium64_next g))) (s21 g) (s22 g) r,
       regC = mid_reg 111 (s31 (snd (trivium64_next g))) (s31 g) (s32 g) r \<rparr>"


section \<open>The keystream step\<close>

text \<open>
  Claim C2. Each of the fifteen tap words that one call of \<open>trivium64_next\<close> computes
  is the specification's \<open>tap(n)\<close> of its register's (newer, older) pair, with \<open>n\<close>
  the offset inside that register; the taps are those of the canonical offsets
  66, 93, 91, 92, 69 (register A), 162, 177, 171, 175, 176 (register B) and
  243, 288, 264, 286, 287 (register C).
\<close>

theorem trivium64_taps_canonical:
  "trivium64_taps g =
     \<lparr> s66 = tapA g 66, s93 = tapA g 93,
       s162 = tapB g 162, s177 = tapB g 177,
       s243 = tapC g 243, s288 = tapC g 288,
       s91 = tapA g 91, s92 = tapA g 92,
       s171 = tapB g 171, s175 = tapB g 175, s176 = tapB g 176,
       s264 = tapC g 264, s286 = tapC g 286, s287 = tapC g 287,
       s69 = tapA g 69 \<rparr>"
  by (simp add: trivium64_taps_def tapA_def tapB_def tapC_def tap_def)

text \<open>
  Claim C3. One keystream step returns
  \<open>z = (A66 XOR A93) XOR (B162 XOR B177) XOR (C243 XOR C288)\<close> and rotates every
  register pair to (new word, previous newer word): register A receives
  \<open>t3\<close> (the branch of C, closed with tap 69 of A), register B receives \<open>t1\<close>
  (the branch of A, closed with tap 171 of B) and register C receives \<open>t2\<close>
  (the branch of B, closed with tap 264 of C).
\<close>

theorem trivium64_next_wiring:
  "trivium64_next g =
     ((tapA g 66 XOR tapA g 93) XOR (tapB g 162 XOR tapB g 177)
        XOR (tapC g 243 XOR tapC g 288),
      \<lparr> s11 = tapC g 243 XOR tapC g 288 XOR (tapC g 286 AND tapC g 287) XOR tapA g 69,
        s12 = s11 g,
        s21 = tapA g 66 XOR tapA g 93 XOR (tapA g 91 AND tapA g 92) XOR tapB g 171,
        s22 = s21 g,
        s31 = tapB g 162 XOR tapB g 177 XOR (tapB g 175 AND tapB g 176) XOR tapC g 264,
        s32 = s31 g \<rparr>)"
  by (simp add: trivium64_next_def trivium64_taps_def tapA_def tapB_def tapC_def tap_def
      Let_def ac_simps)

section \<open>The blank rounds\<close>

lemma length_be_bytes [simp]: "length (be_bytes u) = 8"
  by (simp add: be_bytes_def)

lemma blank_rounds_advance:
  "i \<le> 18 \<Longrightarrow> blank_rounds i g = advance (18 - i) g"
proof (induction i g rule: blank_rounds.induct)
  case (1 i g)
  show ?case
  proof (cases "i < 18")
    case True
    then have "18 - i = Suc (18 - (i + 1))" by simp
    with True 1 show ?thesis
      by (simp add: blank_rounds.simps [of i])
  next
    case False
    with 1 have "i = 18" by simp
    then show ?thesis by (simp add: blank_rounds.simps [of 18])
  qed
qed

section \<open>Bytes and words\<close>

lemma ff_mask: "(0xff :: u64) = mask 8"
  by (simp add: mask_eq_exp_minus_1)

lemma ucast_and_ff: "(ucast (u AND 0xff :: u64) :: u8) = ucast u"
  unfolding ff_mask by (rule bit_word_eqI) (auto simp: bit_simps)

lemma uint64_to_bytes_eq:
  assumes "base + 8 \<le> length ks"
  shows "uint64_to_bytes u ks base = Inr (take base ks @ be_bytes u @ drop (base + 8) ks)"
proof -
  have "uint64_to_bytes u ks base =
      Inr (ks[base + 7 := ucast u, base + 6 := ucast (drop_bit 8 u),
             base + 5 := ucast (drop_bit 16 u),
             base + 4 := ucast (drop_bit 24 u),
             base + 3 := ucast (drop_bit 32 u),
             base + 2 := ucast (drop_bit 40 u),
             base + 1 := ucast (drop_bit 48 u),
             base := ucast (drop_bit 56 u)])"
   using assms
   by (simp add: uint64_to_bytes_def uint64_to_bytes_loop.simps store_def ucast_and_ff)
  also have "\<dots> = Inr (take base ks @ be_bytes u @ drop (base + 8) ks)"
    using assms
    apply simp
    apply (rule nth_equalityI)
     apply (simp add: be_bytes_def)
    apply (auto simp: nth_list_update nth_append be_bytes_def nth_Cons' min_def)
    done
  finally show ?thesis .
qed



lemma list8: "length b = 8 \<Longrightarrow> \<exists>a0 a1 a2 a3 a4 a5 a6 a7. b = [a0, a1, a2, a3, a4, a5, a6, a7]"
  by (auto simp: eval_nat_numeral length_Suc_conv)

lemma bytes_to_uint64_eq:
  "bytes_to_uint64 [a0, a1, a2, a3, a4, a5, a6, a7] =
     Inr (((((((ucast a7 OR push_bit 56 (ucast a0)) OR push_bit 48 (ucast a1)) OR push_bit 40 (ucast a2))
       OR push_bit 32 (ucast a3)) OR push_bit 24 (ucast a4)) OR push_bit 16 (ucast a5))
       OR push_bit 8 (ucast a6))"
  by (simp add: bytes_to_uint64_def bytes_to_uint64_loop.simps sizeof_uint64_ptr_def)

lemma bit_byte_at:
  "bit (push_bit m (ucast (a :: u8)) :: u64) p \<longleftrightarrow> m \<le> p \<and> p < m + 8 \<and> p < 64 \<and> bit a (p - m)"
  by (auto simp: bit_simps dest: bit_imp_le_length)

lemma bit_byte_of:
  "bit (ucast (drop_bit c (w :: u64)) :: u8) n \<longleftrightarrow> n < 8 \<and> bit w (c + n)"
  by (auto simp: bit_simps)


lemma bit_low_byte:
  "bit (ucast (a :: u8) :: u64) p \<longleftrightarrow> p < 8 \<and> bit a p"
  by (auto simp: bit_simps dest: bit_imp_le_length)

lemma bit_low_byte_of:
  "bit (ucast (w :: u64) :: u8) n \<longleftrightarrow> n < 8 \<and> bit w n"
  by (auto simp: bit_simps)


lemma bit_byte_part:
  "bit (push_bit c (ucast (ucast (drop_bit c (w :: u64)) :: u8)) :: u64) n \<longleftrightarrow>
     c \<le> n \<and> n < c + 8 \<and> bit w n"
  by (auto simp: bit_simps dest: bit_imp_le_length)

lemma bit_low_part:
  "bit (ucast (ucast (w :: u64) :: u8) :: u64) n \<longleftrightarrow> n < 8 \<and> bit w n"
  by (auto simp: bit_simps)

lemma b2u_be_bytes: "bytes_to_uint64 (be_bytes w) = Inr w"
proof -
  have "bit ((((((((ucast (ucast w :: u8) :: u64) OR push_bit 56 (ucast (ucast (drop_bit 56 w) :: u8)))
      OR push_bit 48 (ucast (ucast (drop_bit 48 w) :: u8)))
      OR push_bit 40 (ucast (ucast (drop_bit 40 w) :: u8)))
      OR push_bit 32 (ucast (ucast (drop_bit 32 w) :: u8)))
      OR push_bit 24 (ucast (ucast (drop_bit 24 w) :: u8)))
      OR push_bit 16 (ucast (ucast (drop_bit 16 w) :: u8)))
      OR push_bit 8 (ucast (ucast (drop_bit 8 w) :: u8))) n \<longleftrightarrow> bit w n" if "n < 64" for n
    unfolding bit_or_iff bit_byte_part bit_low_part
    using that by (cases "bit w n") (simp_all, arith)
  then show ?thesis
    unfolding be_bytes_def bytes_to_uint64_eq
    by (auto intro: bit_word_eqI)
qed

lemma byte_of_word:
  "c \<in> {0, 8, 16, 24, 32, 40, 48, 56} \<Longrightarrow>
   (ucast (drop_bit c ((((((((ucast (a7 :: u8) :: u64) OR push_bit 56 (ucast (a0 :: u8)))
      OR push_bit 48 (ucast (a1 :: u8)))
      OR push_bit 40 (ucast (a2 :: u8)))
      OR push_bit 32 (ucast (a3 :: u8)))
      OR push_bit 24 (ucast (a4 :: u8)))
      OR push_bit 16 (ucast (a5 :: u8)))
      OR push_bit 8 (ucast (a6 :: u8)))) :: u8) =
   (if c = 0 then a7 else if c = 8 then a6 else if c = 16 then a5 else if c = 24 then a4
    else if c = 32 then a3 else if c = 40 then a2 else if c = 48 then a1 else a0)"
  apply (rule bit_word_eqI)
  apply (simp only: bit_byte_of bit_or_iff bit_byte_at bit_low_byte)
  apply (elim insertE emptyE)
  apply simp_all
  done

lemma be_bytes_b2u:
  "be_bytes ((((((((ucast (a7 :: u8) :: u64) OR push_bit 56 (ucast (a0 :: u8)))
      OR push_bit 48 (ucast (a1 :: u8)))
      OR push_bit 40 (ucast (a2 :: u8)))
      OR push_bit 32 (ucast (a3 :: u8)))
      OR push_bit 24 (ucast (a4 :: u8)))
      OR push_bit 16 (ucast (a5 :: u8)))
      OR push_bit 8 (ucast (a6 :: u8))) = [a0, a1, a2, a3, a4, a5, a6, a7]"
  unfolding be_bytes_def
  using byte_of_word [of 0 a7 a0 a1 a2 a3 a4 a5 a6] byte_of_word [of 8 a7 a0 a1 a2 a3 a4 a5 a6]
    byte_of_word [of 16 a7 a0 a1 a2 a3 a4 a5 a6] byte_of_word [of 24 a7 a0 a1 a2 a3 a4 a5 a6]
    byte_of_word [of 32 a7 a0 a1 a2 a3 a4 a5 a6] byte_of_word [of 40 a7 a0 a1 a2 a3 a4 a5 a6]
    byte_of_word [of 48 a7 a0 a1 a2 a3 a4 a5 a6] byte_of_word [of 56 a7 a0 a1 a2 a3 a4 a5 a6]
  by simp


section \<open>The loops of the driver\<close>

lemma length_keystream [simp]: "length (keystream n g) = n"
  by (induction n arbitrary: g) simp_all

lemma length_concat_be_bytes [simp]: "length (concat (map be_bytes ws)) = 8 * length ws"
  by (induction ws) simp_all

lemma length_output_bytes [simp]: "length (output_bytes g0 n) = n"
  by (simp add: output_bytes_def)

lemma full_words_loop_eq:
  "i + 8 * q \<le> length ks \<Longrightarrow> i + 8 * q \<le> INT_MAX \<Longrightarrow>
   full_words_loop (i + 8 * q) i g ks =
     Inr (advance q g, take i ks @ concat (map be_bytes (keystream q g)) @ drop (i + 8 * q) ks)"
proof (induction q arbitrary: i g ks)
  case 0
  then show ?case by (simp add: full_words_loop.simps [of i i])
next
  case (Suc q)
  obtain z g' where nx: "trivium64_next g = (z, g')" by (cases "trivium64_next g")
  let ?ks1 = "take i ks @ be_bytes z @ drop (i + 8) ks"
  have w: "uint64_to_bytes z ks i = Inr ?ks1"
    using Suc.prems by (simp add: uint64_to_bytes_eq)
  have len: "length ?ks1 = length ks" using Suc.prems by simp
  have "full_words_loop (i + 8 * Suc q) i g ks = full_words_loop (i + 8 + 8 * q) (i + 8) g' ?ks1"
    using Suc.prems by (subst full_words_loop.simps) (simp add: nx w add.assoc)
  also have "\<dots> = Inr (advance q g',
      take (i + 8) ?ks1 @ concat (map be_bytes (keystream q g')) @ drop (i + 8 + 8 * q) ?ks1)"
    using Suc.prems len by (intro Suc.IH) simp_all
  also have "take (i + 8) ?ks1 = take i ks @ be_bytes z"
    using Suc.prems by simp
  also have "drop (i + 8 + 8 * q) ?ks1 = drop (i + 8 * Suc q) ks"
    using Suc.prems by (auto simp: add.assoc intro!: arg_cong [where f = "\<lambda>k. drop k ks"])
  finally show ?case by (simp add: nx)
qed

lemma full_words_loop_overflow:
  "i + 8 * q \<le> length ks \<Longrightarrow> INT_MAX < i + 8 * q \<Longrightarrow> 0 < q \<Longrightarrow>
   full_words_loop (i + 8 * q) i g ks = Inl SignedOverflow"
proof (induction q arbitrary: i g ks)
  case 0
  then show ?case by simp
next
  case (Suc q)
  obtain z g' where nx: "trivium64_next g = (z, g')" by (cases "trivium64_next g")
  let ?ks1 = "take i ks @ be_bytes z @ drop (i + 8) ks"
  have w: "uint64_to_bytes z ks i = Inr ?ks1"
    using Suc.prems by (simp add: uint64_to_bytes_eq)
  have len: "length ?ks1 = length ks" using Suc.prems by simp
  show ?case
  proof (cases "INT_MAX < i + 8")
    case True
    then show ?thesis
      using Suc.prems by (subst full_words_loop.simps) (simp add: nx w add.assoc)
  next
    case False
    then have "full_words_loop (i + 8 * Suc q) i g ks
        = full_words_loop (i + 8 + 8 * q) (i + 8) g' ?ks1"
      using Suc.prems by (subst full_words_loop.simps) (simp add: nx w add.assoc)
    also have "\<dots> = Inl SignedOverflow"
      using Suc.prems len False by (intro Suc.IH) simp_all
    finally show ?thesis .
  qed
qed

lemma tail_loop_eq:
  "i \<le> r \<Longrightarrow> r \<le> n \<Longrightarrow> n \<le> length ks \<Longrightarrow>
   tail_loop n r w i ks =
     Inr (take (n - r + i) ks @ map (\<lambda>j. ucast (drop_bit (7 - j) w)) [i..<r] @ drop n ks)"
proof (induction n r w i ks rule: tail_loop.induct)
  case (1 n r w i ks)
  show ?case
  proof (cases "i < r")
    case False
    with 1 have "i = r" by simp
    then show ?thesis using 1 by (simp add: tail_loop.simps [of n r w r])
  next
    case True
    let ?v = "ucast (drop_bit (7 - i) w) :: u8"
    let ?ks1 = "ks[n - r + i := ?v]"
    have st: "store ks (n - r + i) (ucast (drop_bit (7 - i) w AND 0xff)) = Inr ?ks1"
      using True 1 by (simp add: store_def ucast_and_ff)
    have "tail_loop n r w i ks = tail_loop n r w (i + 1) ?ks1"
      using True by (subst tail_loop.simps) (simp add: st)
    also have "\<dots> = Inr (take (n - r + (i + 1)) ?ks1 @
        map (\<lambda>j. ucast (drop_bit (7 - j) w)) [i + 1..<r] @ drop n ?ks1)"
      using True 1 st by (intro "1.IH") simp_all
    also have "take (n - r + (i + 1)) ?ks1 = take (n - r + i) ks @ [?v]"
      using True 1 by (simp add: take_Suc_conv_app_nth)
    also have "drop n ?ks1 = drop n ks"
      using True 1 by simp
    finally show ?thesis
      using True by (simp add: upt_conv_Cons)
  qed
qed


lemma bytes_to_uint64_len8:
  "length b = 8 \<Longrightarrow> \<exists>w. bytes_to_uint64 b = Inr w \<and> be_bytes w = b"
  using list8 [of b] by (auto simp: bytes_to_uint64_eq be_bytes_b2u)

lemma advance_add: "advance (m + n) g = advance n (advance m g)"
  by (induction m arbitrary: g) simp_all


lemma advance_Suc_right: "advance (Suc n) g = snd (trivium64_next (advance n g))"
  by (induction n arbitrary: g) simp_all

lemma trivium_api_eq:
  assumes key: "bytes_to_uint64 key = Inr key64" and iv: "bytes_to_uint64 iv = Inr iv64"
    and len: "n \<le> length ks" and int: "n \<le> INT_MAX"
  shows "trivium_api g key iv n ks =
     Inr (advance (n div 8 + (if n mod 8 = 0 then 0 else 1)) (trivium64_setseed key64 iv64 g),
          output_bytes (trivium64_setseed key64 iv64 g) n @ drop n ks)"
proof -
  let ?g0 = "trivium64_setseed key64 iv64 g"
  let ?q = "n div 8" and ?r = "n mod 8"
  let ?full = "concat (map be_bytes (keystream ?q ?g0))"
  have split: "n - ?r = 0 + 8 * ?q" by (simp add: minus_mod_eq_mult_div)
  have le: "8 * ?q \<le> n" by simp
  have loop: "full_words_loop (n - ?r) 0 ?g0 ks =
      Inr (advance ?q ?g0, ?full @ drop (8 * ?q) ks)"
    unfolding split using len int le
    by (subst full_words_loop_eq) simp_all
  show ?thesis
  proof (cases "?r = 0")
    case True
    then have "8 * ?q = n" by presburger
    with True loop show ?thesis
      by (simp add: trivium_api_def key iv output_bytes_def Let_def)
  next
    case False
    obtain z g2 where nx: "trivium64_next (advance ?q ?g0) = (z, g2)"
      by (cases "trivium64_next (advance ?q ?g0)")
    have g2: "snd (trivium64_next (advance ?q ?g0)) = g2"
      using nx by simp
    let ?ks1 = "?full @ drop (8 * ?q) ks"
    have n: "n - ?r = 8 * ?q" using split by simp
    have tail: "tail_loop n ?r z 0 ?ks1 =
        Inr (take (n - ?r + 0) ?ks1 @ map (\<lambda>j. ucast (drop_bit (7 - j) z)) [0..<?r] @ drop n ?ks1)"
      using len le by (intro tail_loop_eq) simp_all
    have "take (n - ?r + 0) ?ks1 = ?full" by (simp add: n)
    moreover have "drop n ?ks1 = drop n ks"
      using le len by (simp add: n [symmetric])
    ultimately have tail': "tail_loop n ?r z 0 ?ks1 =
        Inr (?full @ map (\<lambda>j. ucast (drop_bit (7 - j) z)) [0..<?r] @ drop n ks)"
      using tail by simp
    from False loop show ?thesis
      by (simp add: trivium_api_def key iv Let_def nx tail' g2 output_bytes_def n
          advance_Suc_right del: advance.simps)
  qed
qed


lemma ref_key_word: "bytes_to_uint64 ref_key = Inr 0x1112131415161718"
  by (simp add: ref_key_def bytes_to_uint64_eq)

lemma ref_iv_word: "bytes_to_uint64 ref_iv = Inr 0xAAABACADADAFFFCC"
  by (simp add: ref_iv_def bytes_to_uint64_eq)

lemma trivium64_load_eq:
  "trivium64_load seed seq g =
     \<lparr> s11 = seed, s12 = 0, s21 = seq, s22 = 0, s31 = 0, s32 = 0x700000000000 \<rparr>"
  by (simp add: trivium64_load_def)


lemma setseed_advance:
  "trivium64_setseed seed seq g =
     advance 18 \<lparr> s11 = seed, s12 = 0, s21 = seq, s22 = 0, s31 = 0, s32 = 0x700000000000 \<rparr>"
  by (simp add: trivium64_setseed_def blank_rounds_advance trivium64_load_eq)

lemma trivium_api_overflow:
  assumes key: "bytes_to_uint64 key = Inr key64" and iv: "bytes_to_uint64 iv = Inr iv64"
    and len: "n \<le> length ks" and int: "INT_MAX < n"
  shows "trivium_api g key iv n ks = Inl SignedOverflow"
proof -
  have split: "n - n mod 8 = 0 + 8 * (n div 8)" by (simp add: minus_mod_eq_mult_div)
  have big: "INT_MAX < 0 + 8 * (n div 8)" using int unfolding INT_MAX_def by presburger
  have pos: "0 < n div 8" using int unfolding INT_MAX_def by presburger
  have le: "0 + 8 * (n div 8) \<le> length ks" using len by simp
  have "full_words_loop (n - n mod 8) 0 (trivium64_setseed key64 iv64 g) ks = Inl SignedOverflow"
    unfolding split using le big pos by (rule full_words_loop_overflow)
  then show ?thesis
    by (simp add: trivium_api_def key iv Let_def)
qed


lemma seeded_ref:
  "trivium64_setseed 0x1112131415161718 0xAAABACADADAFFFCC g =
     \<lparr> s11 = 0xf165489cf5f0e7d4, s12 = 0x9f046e057af1eebe, s21 = 0xa8770ed552ce0549,
       s22 = 0xad22451573b28b5c, s31 = 0x16d9be52b47671ba, s32 = 0xd41ddd5f5fbb03f1 \<rparr>"
  by (simp add: trivium64_setseed_def trivium64_load_eq blank_rounds.simps
      trivium64_next_def trivium64_taps_def Let_def)

lemma first_word_ref:
  "fst (trivium64_next (trivium64_setseed 0x1112131415161718 0xAAABACADADAFFFCC g)) =
     0x592885C3C6D2E9C9"
  by (simp add: seeded_ref trivium64_next_def trivium64_taps_def Let_def)

section \<open>Seeding\<close>

text \<open>
  Claim C4, as the specification states it, asks for the three lowest-order bits of
  the constant in register C's older word to be set. They are not: the bits 0, 1 and 2
  of \<open>s32\<close> after the six assignments are all clear.
\<close>

theorem load_low_bits_counterexample:
  "\<not> (bit (s32 (trivium64_load 0 0 zero_state)) 0 \<and>
      bit (s32 (trivium64_load 0 0 zero_state)) 1 \<and>
      bit (s32 (trivium64_load 0 0 zero_state)) 2)"
  by (simp add: trivium64_load_eq)

text \<open>
  Claim C4, amended. For every key and sequence number the six assignments set
  register A to (key, 0), register B to (sequence number, 0) and register C to
  (0, \<open>0x700000000000\<close>). The constant is 7 shifted left by 44: it is not zero and
  its set bits are the bits 44, 45 and 46. These are the positions 109, 110 and 111 of
  register C, so that the taps at the canonical offsets 286, 287 and 288 read 1 in the
  first round (bit 63 of a tap word is the bit of the first round).
\<close>

theorem trivium64_load_words:
  "trivium64_load seed seq g =
     \<lparr> s11 = seed, s12 = 0, s21 = seq, s22 = 0, s31 = 0, s32 = push_bit 44 7 \<rparr> \<and>
   s32 (trivium64_load seed seq g) \<noteq> 0 \<and>
   bit (tapC (trivium64_load seed seq g) 286) 63 \<and>
   bit (tapC (trivium64_load seed seq g) 287) 63 \<and>
   bit (tapC (trivium64_load seed seq g) 288) 63"
  by (simp add: trivium64_load_eq tapC_def tap_def bit_simps)

text \<open>
  Claim C6. Seeding is the six assignments followed by exactly eighteen calls of
  \<open>trivium64_next\<close> whose results are dropped; the state it leaves depends on the key
  and the sequence number alone. The driver starts its output from that state
  whatever length is requested: a request of \<open>n\<close> bytes returns the bytes of the
  words that follow the eighteen dropped ones and leaves the globals
  \<open>n div 8\<close> steps (one more when \<open>n\<close> is not a multiple of 8) after the seeded
  state.
\<close>

theorem setseed_eighteen_blank_rounds:
  "trivium64_setseed seed seq g =
     advance 18 \<lparr> s11 = seed, s12 = 0, s21 = seq, s22 = 0, s31 = 0, s32 = 0x700000000000 \<rparr> \<and>
   (bytes_to_uint64 key = Inr seed \<longrightarrow> bytes_to_uint64 iv = Inr seq \<longrightarrow>
    n \<le> length ks \<longrightarrow> n \<le> INT_MAX \<longrightarrow>
    trivium_api g key iv n ks =
      Inr (advance (n div 8 + (if n mod 8 = 0 then 0 else 1)) (trivium64_setseed seed seq g),
           output_bytes (trivium64_setseed seed seq g) n @ drop n ks))"
  using setseed_advance [of seed seq g] trivium_api_eq [of key seed iv seq n ks g]
  by simp

text \<open>
  An instance of C6: the reference key and sequence number, five bytes requested.
\<close>

theorem setseed_eighteen_blank_rounds_witness:
  "trivium_api zero_state ref_key ref_iv 5 (replicate 5 0) =
     Inr (advance 1 (trivium64_setseed 0x1112131415161718 0xAAABACADADAFFFCC zero_state),
          output_bytes (trivium64_setseed 0x1112131415161718 0xAAABACADADAFFFCC zero_state) 5)"
  using setseed_eighteen_blank_rounds [of "0x1112131415161718" "0xAAABACADADAFFFCC" zero_state
      ref_key ref_iv 5 "replicate 5 0"]
  by (simp add: ref_key_word ref_iv_word INT_MAX_def del: advance.simps)

section \<open>The word codec\<close>

text \<open>
  Claim C7. \<open>uint64_to_bytes\<close> and \<open>bytes_to_uint64\<close> are inverse to each other
  on 8-byte buffers and 64-bit words: writing a word \<open>w\<close> into an 8-byte buffer
  gives its big-endian bytes, and reading these gives \<open>w\<close> back; reading an 8-byte
  buffer \<open>b\<close> gives a word, and writing that word into an 8-byte buffer gives
  \<open>b\<close> back.
\<close>

theorem word_codec_round_trip:
  "(length buf = 8 \<longrightarrow>
      uint64_to_bytes w buf 0 = Inr (be_bytes w) \<and> bytes_to_uint64 (be_bytes w) = Inr w) \<and>
   (length b = 8 \<longrightarrow> length buf = 8 \<longrightarrow>
      (\<exists>w'. bytes_to_uint64 b = Inr w' \<and> uint64_to_bytes w' buf 0 = Inr b))"
proof (intro conjI impI)
  assume "length buf = 8"
  then show "uint64_to_bytes w buf 0 = Inr (be_bytes w)"
    by (simp add: uint64_to_bytes_eq)
  show "bytes_to_uint64 (be_bytes w) = Inr w" by (rule b2u_be_bytes)
next
  assume b: "length b = 8" and buf: "length buf = 8"
  from bytes_to_uint64_len8 [OF b] obtain w' where
    w': "bytes_to_uint64 b = Inr w'" "be_bytes w' = b" by blast
  from buf have "uint64_to_bytes w' buf 0 = Inr (be_bytes w')"
    by (simp add: uint64_to_bytes_eq)
  with w' show "\<exists>w'. bytes_to_uint64 b = Inr w' \<and> uint64_to_bytes w' buf 0 = Inr b"
    by auto
qed

text \<open>
  An instance of C7: the word \<open>0x1112131415161718\<close> and the reference key.
\<close>

theorem word_codec_round_trip_witness:
  "uint64_to_bytes 0x1112131415161718 (replicate 8 0) 0 = Inr (be_bytes 0x1112131415161718) \<and>
   bytes_to_uint64 (be_bytes 0x1112131415161718) = Inr 0x1112131415161718 \<and>
   (\<exists>w'. bytes_to_uint64 ref_key = Inr w' \<and> uint64_to_bytes w' (replicate 8 0) 0 = Inr ref_key)"
  using word_codec_round_trip [of "replicate 8 0" "0x1112131415161718" ref_key]
  by (simp add: ref_key_def)

section \<open>Properties of the driver\<close>

text \<open>
  The two outcomes of a call with readable key and sequence number and a buffer of
  capacity at least \<open>n\<close>: it returns, or the counter of the full-word loop
  overflows, which needs a request beyond \<open>INT_MAX\<close> bytes. No access is out of
  bounds in either case.
\<close>

lemma trivium_api_cases:
  assumes key: "bytes_to_uint64 key = Inr key64" and iv: "bytes_to_uint64 iv = Inr iv64"
    and len: "n \<le> length ks"
  shows "(n \<le> INT_MAX \<and>
      trivium_api g key iv n ks =
        Inr (advance (n div 8 + (if n mod 8 = 0 then 0 else 1)) (trivium64_setseed key64 iv64 g),
             output_bytes (trivium64_setseed key64 iv64 g) n @ drop n ks)) \<or>
     (INT_MAX < n \<and> trivium_api g key iv n ks = Inl SignedOverflow)"
proof (cases "n \<le> INT_MAX")
  case True
  with trivium_api_eq [OF key iv len] show ?thesis by simp
next
  case False
  then have "INT_MAX < n" by simp
  with trivium_api_overflow [OF key iv len] show ?thesis by simp
qed

lemma full_words_loop_cases:
  assumes "8 * q \<le> length ks"
  shows "(8 * q \<le> INT_MAX \<and>
      full_words_loop (8 * q) 0 g ks =
        Inr (advance q g, concat (map be_bytes (keystream q g)) @ drop (8 * q) ks)) \<or>
     (INT_MAX < 8 * q \<and> full_words_loop (8 * q) 0 g ks = Inl SignedOverflow)"
proof (cases "8 * q \<le> INT_MAX")
  case True
  with assms full_words_loop_eq [of 0 q ks g] show ?thesis by simp
next
  case False
  then have big: "INT_MAX < 0 + 8 * q" by simp
  then have "0 < q" by (cases q) (simp_all add: INT_MAX_def)
  with assms big full_words_loop_overflow [of 0 q ks g] show ?thesis by simp
qed







text \<open>
  Claim C10. For every \<open>ks_size\<close> and every output buffer of capacity at least
  \<open>ks_size\<close> no access of the driver is out of bounds. The full-word loop replaces
  the bytes at the indices below \<open>ks_size - ks_size mod 8\<close> and leaves the buffer
  unchanged from there on (or stops at the overflow of its counter, never at an access
  out of bounds); the tail loop replaces the bytes at the indices from
  \<open>ks_size - ks_size mod 8\<close> to \<open>ks_size - 1\<close> and nothing else; a call that
  returns gives \<open>ks_size\<close> new bytes followed by the old content from index
  \<open>ks_size\<close> on, and every call with \<open>ks_size \<le> INT_MAX\<close> returns; with
  \<open>ks_size = 0\<close> the buffer is returned as it was.
\<close>

theorem writes_in_bounds:
  assumes "bytes_to_uint64 key = Inr key64" and "bytes_to_uint64 iv = Inr iv64"
    and "ks_size \<le> length ks"
  shows "trivium_api g key iv ks_size ks \<noteq> Inl OutOfBounds \<and>
    full_words_loop (ks_size - ks_size mod 8) 0 (trivium64_setseed key64 iv64 g) ks
      \<noteq> Inl OutOfBounds \<and>
    (full_words_loop (ks_size - ks_size mod 8) 0 (trivium64_setseed key64 iv64 g) ks =
       Inr (advance (ks_size div 8) (trivium64_setseed key64 iv64 g),
            concat (map be_bytes (keystream (ks_size div 8) (trivium64_setseed key64 iv64 g)))
              @ drop (ks_size - ks_size mod 8) ks) \<or>
     full_words_loop (ks_size - ks_size mod 8) 0 (trivium64_setseed key64 iv64 g) ks =
       Inl SignedOverflow) \<and>
    (length ks1 = length ks \<longrightarrow>
     tail_loop ks_size (ks_size mod 8) w 0 ks1 =
      Inr (take (ks_size - ks_size mod 8) ks1
             @ map (\<lambda>j. ucast (drop_bit (7 - j) w)) [0..<ks_size mod 8]
             @ drop ks_size ks1)) \<and>
    (trivium_api g key iv ks_size ks =
       Inr (advance (ks_size div 8 + (if ks_size mod 8 = 0 then 0 else 1))
              (trivium64_setseed key64 iv64 g),
            output_bytes (trivium64_setseed key64 iv64 g) ks_size @ drop ks_size ks) \<or>
     trivium_api g key iv ks_size ks = Inl SignedOverflow) \<and>
    length (output_bytes (trivium64_setseed key64 iv64 g) ks_size) = ks_size \<and>
    (ks_size \<le> INT_MAX \<longrightarrow>
       full_words_loop (ks_size - ks_size mod 8) 0 (trivium64_setseed key64 iv64 g) ks =
         Inr (advance (ks_size div 8) (trivium64_setseed key64 iv64 g),
              concat (map be_bytes (keystream (ks_size div 8) (trivium64_setseed key64 iv64 g)))
                @ drop (ks_size - ks_size mod 8) ks) \<and>
       trivium_api g key iv ks_size ks =
         Inr (advance (ks_size div 8 + (if ks_size mod 8 = 0 then 0 else 1))
                (trivium64_setseed key64 iv64 g),
              output_bytes (trivium64_setseed key64 iv64 g) ks_size @ drop ks_size ks)) \<and>
    (ks_size = 0 \<longrightarrow> trivium_api g key iv ks_size ks = Inr (trivium64_setseed key64 iv64 g, ks))"
proof -
  let ?g0 = "trivium64_setseed key64 iv64 g"
  have split: "ks_size - ks_size mod 8 = 8 * (ks_size div 8)"
    by (simp add: minus_mod_eq_mult_div)
  have le: "8 * (ks_size div 8) \<le> length ks" using assms(3) by simp
  have small: "ks_size \<le> INT_MAX \<Longrightarrow> 8 * (ks_size div 8) \<le> INT_MAX" by simp
  note api = trivium_api_cases [OF assms, of g]
  note loop = full_words_loop_cases [OF le, of ?g0, folded split]
  have tail: "tail_loop ks_size (ks_size mod 8) w 0 ks1 =
      Inr (take (ks_size - ks_size mod 8) ks1
             @ map (\<lambda>j. ucast (drop_bit (7 - j) w)) [0..<ks_size mod 8]
             @ drop ks_size ks1)" if "length ks1 = length ks"
  proof -
    from that assms(3) have "ks_size \<le> length ks1" by simp
    then have "tail_loop ks_size (ks_size mod 8) w 0 ks1 =
        Inr (take (ks_size - ks_size mod 8 + 0) ks1
               @ map (\<lambda>j. ucast (drop_bit (7 - j) w)) [0..<ks_size mod 8]
               @ drop ks_size ks1)"
      by (intro tail_loop_eq) simp_all
    then show ?thesis by simp
  qed
  have zero: "trivium_api g key iv ks_size ks = Inr (?g0, ks)" if "ks_size = 0"
    using that api by (auto simp: output_bytes_def INT_MAX_def)
  have 1: "trivium_api g key iv ks_size ks \<noteq> Inl OutOfBounds" using api by auto
  have 2: "full_words_loop (ks_size - ks_size mod 8) 0 ?g0 ks \<noteq> Inl OutOfBounds"
    using loop by auto
  have 3: "full_words_loop (ks_size - ks_size mod 8) 0 ?g0 ks =
       Inr (advance (ks_size div 8) ?g0,
            concat (map be_bytes (keystream (ks_size div 8) ?g0))
              @ drop (ks_size - ks_size mod 8) ks) \<or>
     full_words_loop (ks_size - ks_size mod 8) 0 ?g0 ks = Inl SignedOverflow"
    using loop by auto
  have 5: "trivium_api g key iv ks_size ks =
       Inr (advance (ks_size div 8 + (if ks_size mod 8 = 0 then 0 else 1)) ?g0,
            output_bytes ?g0 ks_size @ drop ks_size ks) \<or>
     trivium_api g key iv ks_size ks = Inl SignedOverflow"
    using api by auto
  have 7: "full_words_loop (ks_size - ks_size mod 8) 0 ?g0 ks =
         Inr (advance (ks_size div 8) ?g0,
              concat (map be_bytes (keystream (ks_size div 8) ?g0))
                @ drop (ks_size - ks_size mod 8) ks) \<and>
       trivium_api g key iv ks_size ks =
         Inr (advance (ks_size div 8 + (if ks_size mod 8 = 0 then 0 else 1)) ?g0,
              output_bytes ?g0 ks_size @ drop ks_size ks)" if "ks_size \<le> INT_MAX"
    using that small api loop unfolding split by auto
  show ?thesis
    using 1 2 3 tail 5 7 zero by (simp only: length_output_bytes) blast
qed

text \<open>
  An instance of C10: 13 bytes into a buffer of 16, and 0 bytes into an empty buffer.
\<close>

theorem writes_in_bounds_witness:
  "trivium_api zero_state ref_key ref_iv 13 (replicate 16 0xFF) =
     Inr (advance (13 div 8 + (if (13 :: nat) mod 8 = 0 then 0 else 1))
            (trivium64_setseed 0x1112131415161718 0xAAABACADADAFFFCC zero_state),
          output_bytes (trivium64_setseed 0x1112131415161718 0xAAABACADADAFFFCC zero_state) 13
            @ drop 13 (replicate 16 0xFF)) \<and>
   tail_loop 13 (13 mod 8) 0 0 (replicate 16 0xFF) =
     Inr (take (13 - 13 mod 8) (replicate 16 0xFF)
            @ map (\<lambda>j. ucast (drop_bit (7 - j) (0 :: u64))) [0..<13 mod 8]
            @ drop 13 (replicate 16 0xFF)) \<and>
   trivium_api zero_state ref_key ref_iv 0 [] =
     Inr (trivium64_setseed 0x1112131415161718 0xAAABACADADAFFFCC zero_state, [])"
proof -
  have len: "13 \<le> length (replicate 16 (0xFF :: u8))" and int: "13 \<le> INT_MAX"
    and len0: "0 \<le> length ([] :: u8 list)"
    by (simp_all add: INT_MAX_def)
  show ?thesis
    using int writes_in_bounds [OF ref_key_word ref_iv_word len,
        where g = zero_state and ?ks1.0 = "replicate 16 0xFF" and w = 0]
      writes_in_bounds [OF ref_key_word ref_iv_word len0,
        where g = zero_state and ?ks1.0 = "[]" and w = 0]
    by blast
qed

text \<open>
  Claim C5 fails on the code. For the reference key and sequence number and a
  request of 5 bytes the driver returns \<open>D3 A7 4E 9C 39\<close>, while the five most
  significant bytes of the word of that keystream step are \<open>59 28 85 C3 C6\<close>:
  the tail loop shifts by \<open>7 - i\<close> bits, not by \<open>8 * (7 - i)\<close>.
\<close>

theorem tail_bytes_not_big_endian:
  "map_sum id snd (trivium_api zero_state ref_key ref_iv 5 (replicate 5 0)) =
     Inr [0xD3, 0xA7, 0x4E, 0x9C, 0x39] \<and>
   take 5 (be_bytes (fst (trivium64_next
      (trivium64_setseed 0x1112131415161718 0xAAABACADADAFFFCC zero_state)))) =
     [0x59, 0x28, 0x85, 0xC3, 0xC6]"
proof -
  have "trivium_api zero_state ref_key ref_iv 5 (replicate 5 0) =
      Inr (advance (5 div 8 + (if (5::nat) mod 8 = 0 then 0 else 1))
             (trivium64_setseed 0x1112131415161718 0xAAABACADADAFFFCC zero_state),
           output_bytes (trivium64_setseed 0x1112131415161718 0xAAABACADADAFFFCC zero_state) 5
             @ drop 5 (replicate 5 0))"
    by (rule trivium_api_eq [OF ref_key_word ref_iv_word]) (simp_all add: INT_MAX_def)
  moreover have "output_bytes (trivium64_setseed 0x1112131415161718 0xAAABACADADAFFFCC zero_state) 5
      = [0xD3, 0xA7, 0x4E, 0x9C, 0x39]"
    by (simp add: output_bytes_def first_word_ref upt_rec)
  ultimately show ?thesis
    by (simp add: first_word_ref be_bytes_def)
qed



section \<open>The batched step against the bit-serial cipher\<close>

lemma tap_bit:
  assumes "64 < n" "n \<le> 128" "j < 64"
  shows "bit (tap newer older n) j = hist newer older (j + n - 64)"
proof (cases "j + n < 128")
  case True
  with assms have "n - 64 + j = j + n - 64" "\<not> 128 - n \<le> j" "j + n - 64 < 64" by arith+
  then show ?thesis
    by (simp add: tap_def hist_def bit_simps)
next
  case False
  with assms have i: "j - (128 - n) = j + n - 64 - 64" and "128 - n \<le> j" "\<not> j + n - 64 < 64"
    and "\<not> n - 64 + j < 64"
    by arith+
  moreover from this have "\<not> bit newer (n - 64 + j)"
    by (auto dest: bit_imp_le_length)
  ultimately show ?thesis
    using assms by (simp add: tap_def hist_def bit_simps)
qed

lemma nth_mid_reg:
  "i < len \<Longrightarrow> mid_reg len new newer older r ! i =
     (if i < r then bit new (64 - r + i) else hist newer older (i - r))"
  by (simp add: mid_reg_def)

lemma length_mid_reg [simp]: "length (mid_reg len new newer older r) = len"
  by (simp add: mid_reg_def)

lemma mid_reg_step:
  assumes "r < 64" "0 < len"
  shows "bit new (63 - r) # butlast (mid_reg len new newer older r) =
     mid_reg len new newer older (Suc r)"
proof (rule nth_equalityI)
  show "length (bit new (63 - r) # butlast (mid_reg len new newer older r)) =
      length (mid_reg len new newer older (Suc r))"
    using assms by simp
next
  fix i
  assume "i < length (bit new (63 - r) # butlast (mid_reg len new newer older r))"
  with assms have i: "i < len" by simp
  show "(bit new (63 - r) # butlast (mid_reg len new newer older r)) ! i =
      mid_reg len new newer older (Suc r) ! i"
  proof (cases i)
    case 0
    with assms i show ?thesis by (simp add: nth_mid_reg)
  next
    case (Suc k)
    with i have k: "k < len - 1" "k < len" by simp_all
    have "64 - r + k = 63 - r + Suc k" using assms by simp
    with Suc i k show ?thesis
      by (simp add: nth_mid_reg nth_butlast)
  qed
qed


lemma next_by_taps:
  "trivium64_next g =
     ((tapA g 66 XOR tapA g 93) XOR (tapB g 162 XOR tapB g 177)
        XOR (tapC g 243 XOR tapC g 288),
      \<lparr> s11 = tapC g 243 XOR tapC g 288 XOR (tapC g 286 AND tapC g 287) XOR tapA g 69,
        s12 = s11 g,
        s21 = tapA g 66 XOR tapA g 93 XOR (tapA g 91 AND tapA g 92) XOR tapB g 171,
        s22 = s21 g,
        s31 = tapB g 162 XOR tapB g 177 XOR (tapB g 175 AND tapB g 176) XOR tapC g 264,
        s32 = s31 g \<rparr>)"
  by (simp add: trivium64_next_def trivium64_taps_def tapA_def tapB_def tapC_def tap_def
      Let_def ac_simps)

lemma sbit_mid_A:
  assumes "r < 64" "66 \<le> n" "n \<le> 93"
  shows "sbit (mid g r) n = bit (tapA g n) (63 - r)"
proof -
  from assms have "n - 1 < 93" "\<not> n - 1 < r" "63 - r + n - 64 = n - 1 - r" by arith+
  with assms show ?thesis
    by (simp add: sbit_def mid_def nth_mid_reg tapA_def tap_bit)
qed

lemma sbit_mid_B:
  assumes "r < 64" "159 \<le> n" "n \<le> 177"
  shows "sbit (mid g r) n = bit (tapB g n) (63 - r)"
proof -
  from assms have "n - 94 < 84" "\<not> n - 94 < r" "63 - r + (n - 93) - 64 = n - 94 - r"
    "\<not> n \<le> 93" "64 < n - 93" "n - 93 \<le> 128" by arith+
  with assms show ?thesis
    by (simp add: sbit_def mid_def nth_mid_reg tapB_def tap_bit)
qed

lemma sbit_mid_C:
  assumes "r < 64" "243 \<le> n" "n \<le> 288"
  shows "sbit (mid g r) n = bit (tapC g n) (63 - r)"
proof -
  from assms have "n - 178 < 111" "\<not> n - 178 < r" "63 - r + (n - 177) - 64 = n - 178 - r"
    "\<not> n \<le> 93" "\<not> n \<le> 177" "64 < n - 177" "n - 177 \<le> 128" by arith+
  with assms show ?thesis
    by (simp add: sbit_def mid_def nth_mid_reg tapC_def tap_bit)
qed

lemma round_mid:
  assumes "r < 64"
  shows "trivium_round (mid g r) = (bit (fst (trivium64_next g)) (63 - r), mid g (Suc r))"
proof -
  have regs: "regA (mid g r) = mid_reg 93 (s11 (snd (trivium64_next g))) (s11 g) (s12 g) r"
    "regB (mid g r) = mid_reg 84 (s21 (snd (trivium64_next g))) (s21 g) (s22 g) r"
    "regC (mid g r) = mid_reg 111 (s31 (snd (trivium64_next g))) (s31 g) (s32 g) r"
    by (simp_all add: mid_def)
  have new: "bit (s11 (snd (trivium64_next g))) (63 - r) =
      (((sbit (mid g r) 243 \<noteq> sbit (mid g r) 288) \<noteq>
        (sbit (mid g r) 286 \<and> sbit (mid g r) 287)) \<noteq> sbit (mid g r) 69)"
    "bit (s21 (snd (trivium64_next g))) (63 - r) =
      (((sbit (mid g r) 66 \<noteq> sbit (mid g r) 93) \<noteq>
        (sbit (mid g r) 91 \<and> sbit (mid g r) 92)) \<noteq> sbit (mid g r) 171)"
    "bit (s31 (snd (trivium64_next g))) (63 - r) =
      (((sbit (mid g r) 162 \<noteq> sbit (mid g r) 177) \<noteq>
        (sbit (mid g r) 175 \<and> sbit (mid g r) 176)) \<noteq> sbit (mid g r) 264)"
    "bit (fst (trivium64_next g)) (63 - r) =
      (((sbit (mid g r) 66 \<noteq> sbit (mid g r) 93) \<noteq>
        (sbit (mid g r) 162 \<noteq> sbit (mid g r) 177)) \<noteq>
        (sbit (mid g r) 243 \<noteq> sbit (mid g r) 288))"
    using assms
    by (simp_all add: next_by_taps sbit_mid_A sbit_mid_B sbit_mid_C bit_xor_iff bit_and_iff)
      blast+
  have "snd (trivium_round (mid g r)) = mid g (Suc r)"
    unfolding trivium_round_def Let_def snd_conv regs new [symmetric]
    using assms by (simp add: mid_reg_step mid_def)
  moreover have "fst (trivium_round (mid g r)) = bit (fst (trivium64_next g)) (63 - r)"
    unfolding trivium_round_def Let_def fst_conv new ..
  ultimately show ?thesis by (simp add: prod_eq_iff)
qed


lemma mid_0: "mid g 0 = bits_of g"
  by (simp add: mid_def bits_of_def mid_reg_def)

lemma mid_reg_64:
  "len \<le> 128 \<Longrightarrow> mid_reg len new newer older 64 = map (hist new newer) [0..<len]"
  by (auto simp: mid_reg_def hist_def)

lemma bits_of_next:
  "bits_of (snd (trivium64_next g)) =
     \<lparr> regA = map (hist (s11 (snd (trivium64_next g))) (s11 g)) [0..<93],
       regB = map (hist (s21 (snd (trivium64_next g))) (s21 g)) [0..<84],
       regC = map (hist (s31 (snd (trivium64_next g))) (s31 g)) [0..<111] \<rparr>"
  by (simp add: bits_of_def next_by_taps)

lemma mid_64: "mid g 64 = bits_of (snd (trivium64_next g))"
  unfolding bits_of_next by (simp add: mid_def mid_reg_64)

lemma run_mid:
  "r + m \<le> 64 \<Longrightarrow> trivium_run m (mid g r) = mid g (r + m)"
  by (induction m arbitrary: r) (simp_all add: round_mid)

lemma bits_mid:
  "r + m \<le> 64 \<Longrightarrow>
   trivium_bits m (mid g r) = map (\<lambda>q. bit (fst (trivium64_next g)) (63 - q)) [r..<r + m]"
proof (induction m arbitrary: r)
  case 0
  then show ?case by simp
next
  case (Suc m)
  then have r: "r < 64" "Suc r + m \<le> 64" by simp_all
  have u: "[r..<r + Suc m] = r # [Suc r..<Suc r + m]"
    using upt_rec [of r "r + Suc m"] by simp
  show ?case
    unfolding u using r Suc.IH [of "Suc r"] by (simp add: round_mid del: upt_Suc)
qed

lemma run_64: "trivium_run 64 (bits_of g) = bits_of (snd (trivium64_next g))"
  using run_mid [of 0 64 g] by (simp add: mid_0 mid_64)

lemma bits_64:
  "trivium_bits 64 (bits_of g) = map (\<lambda>q. bit (fst (trivium64_next g)) (63 - q)) [0..<64]"
  using bits_mid [of 0 64 g] by (simp add: mid_0)

lemma pack_word_snoc: "pack_word (bs @ [b]) = push_bit 1 (pack_word bs) OR of_bool b"
  by (simp add: pack_word_def)

lemma bit_shift_in:
  "bit (push_bit 1 (w :: u64) OR of_bool b) j \<longleftrightarrow>
     (if j = 0 then b else j < 64 \<and> bit w (j - 1))"
  unfolding bit_or_iff bit_push_bit_iff bit_of_bool_iff
  by (cases j) (auto simp: possible_bit_word dest: bit_imp_le_length)

lemma bit_pack_word:
  "length bs \<le> 64 \<Longrightarrow>
   bit (pack_word bs) j \<longleftrightarrow> j < length bs \<and> bs ! (length bs - 1 - j)"
proof (induction bs arbitrary: j rule: rev_induct)
  case Nil
  then show ?case by (simp add: pack_word_def)
next
  case (snoc b bs)
  then have len: "length bs \<le> 64" "length bs < 64" by simp_all
  show ?case
  proof (cases j)
    case 0
    then show ?thesis
      unfolding pack_word_snoc bit_shift_in by simp
  next
    case (Suc k)
    have "k < length bs \<Longrightarrow> length bs - Suc k < length bs" by arith
    then show ?thesis
      unfolding pack_word_snoc bit_shift_in
      using Suc len snoc.IH [OF len(1), of k]
      by (auto simp: nth_append)
  qed
qed

lemma pack_word_bits: "pack_word (map (\<lambda>q. bit (z :: u64) (63 - q)) [0..<64]) = z"
proof (rule bit_word_eqI)
  fix n
  assume "n < LENGTH(64)"
  then have n: "n < 64" by simp
  then have "[0..<64] ! (63 - n) = 63 - n"
    using nth_upt [of 0 "63 - n" 64] by simp
  with n show "bit (pack_word (map (\<lambda>q. bit z (63 - q)) [0..<64])) n \<longleftrightarrow> bit z n"
    by (simp add: bit_pack_word del: upt_Suc)
qed

lemma trivium_bits_add:
  "trivium_bits (m + n) \<sigma> = trivium_bits m \<sigma> @ trivium_bits n (trivium_run m \<sigma>)"
  by (induction m arbitrary: \<sigma>) simp_all

lemma trivium_run_add: "trivium_run (m + n) \<sigma> = trivium_run n (trivium_run m \<sigma>)"
  by (induction m arbitrary: \<sigma>) simp_all

lemma length_trivium_bits [simp]: "length (trivium_bits n \<sigma>) = n"
  by (induction n arbitrary: \<sigma>) simp_all

lemma pack_words_append:
  "length xs = 64 \<Longrightarrow> pack_words (xs @ ys) = pack_word xs # pack_words ys"
  by (subst pack_words.simps) auto

lemma keystream_bits:
  "keystream k g = pack_words (trivium_bits (64 * k) (bits_of g))"
proof (induction k arbitrary: g)
  case 0
  then show ?case by (simp add: pack_words.simps)
next
  case (Suc k)
  have "trivium_bits (64 * Suc k) (bits_of g) =
      trivium_bits 64 (bits_of g) @ trivium_bits (64 * k) (trivium_run 64 (bits_of g))"
    using trivium_bits_add [of 64 "64 * k" "bits_of g"] by simp
  then show ?case
    by (simp add: pack_words_append run_64 Suc.IH) (simp add: bits_64 pack_word_bits)
qed

lemma advance_bits: "bits_of (advance n g) = trivium_run (64 * n) (bits_of g)"
proof (induction n arbitrary: g)
  case 0
  then show ?case by simp
next
  case (Suc n)
  have "trivium_run (64 * Suc n) (bits_of g) = trivium_run (64 * n) (trivium_run 64 (bits_of g))"
    using trivium_run_add [of 64 "64 * n" "bits_of g"] by simp
  then show ?case by (simp add: run_64 Suc.IH)
qed

lemma bit_load_const: "bit (0x700000000000 :: u64) k \<longleftrightarrow> k \<in> {44, 45, 46}"
proof -
  have e: "(0x700000000000 :: u64) = push_bit 44 (mask 3)" by (simp add: mask_eq_exp_minus_1)
  show ?thesis
    unfolding e bit_push_bit_iff bit_mask_iff possible_bit_word by (simp, arith)
qed

lemma bits_of_load: "bits_of (trivium64_load key seq g) = canonical_init key seq"
proof -
  have a: "map (hist w 0) [0..<64 + k] = map (bit w) [0..<64] @ replicate k False" for w k
    by (rule nth_equalityI) (auto simp: hist_def nth_append simp del: upt_Suc)
  have h: "hist 0 0x700000000000 i \<longleftrightarrow> 108 \<le> i" if "i < 111" for i
  proof (cases "i < 64")
    case True
    then show ?thesis by (simp add: hist_def)
  next
    case False
    with that have "i - 64 \<in> {44, 45, 46} \<longleftrightarrow> 108 \<le> i" by auto
    with False show ?thesis
      unfolding hist_def bit_load_const by simp
  qed
  have c: "map (hist 0 0x700000000000) [0..<111] = replicate 108 False @ [True, True, True]"
  proof (rule nth_equalityI)
    show "length (map (hist 0 0x700000000000) [0..<111]) =
        length (replicate 108 False @ [True, True, True])"
      by simp
  next
    fix i
    assume "i < length (map (hist 0 0x700000000000) [0..<111])"
    then have i: "i < 111" by simp
    then have "[0..<111] ! i = i" using nth_upt [of 0 i 111] by simp
    moreover have "(replicate 108 False @ [True, True, True]) ! i \<longleftrightarrow> 108 \<le> i"
      using i by (auto simp: nth_append nth_Cons')
    ultimately show "map (hist 0 0x700000000000) [0..<111] ! i =
        (replicate 108 False @ [True, True, True]) ! i"
      using i h [of i] by (simp del: upt_Suc)
  qed
  show ?thesis
    using a [of key 29] a [of seq 20] c
    by (simp add: bits_of_def trivium64_load_eq canonical_init_def)
qed

text \<open>
  Claim C1. For every key and sequence number, the words that \<open>k\<close> calls of
  \<open>trivium64_next\<close> return from the loaded state are the \<open>64 * k\<close> output bits of
  the bit-serial cipher from its initial state, in order, packed most significant bit
  first into 64-bit words. The same holds after seeding: the words that follow the
  eighteen blank calls are the bits that follow the \<open>4 * 288\<close> initial rounds.
\<close>

theorem batched_equals_bit_serial:
  "keystream k (trivium64_load key seq g) =
     pack_words (trivium_bits (64 * k) (canonical_init key seq)) \<and>
   keystream k (trivium64_setseed key seq g) =
     pack_words (trivium_bits (64 * k) (trivium_run (4 * 288) (canonical_init key seq)))"
proof -
  have "bits_of (trivium64_setseed key seq g) = trivium_run (64 * 18) (canonical_init key seq)"
    by (simp add: trivium64_setseed_def blank_rounds_advance advance_bits bits_of_load)
  then show ?thesis
    by (simp add: keystream_bits bits_of_load)
qed


end
